theory Spec2Isabelle
  imports Main "HOL-Library.Word" "HOL-Library.Monad_Syntax"
begin

unbundle bit_operations_syntax

section \<open>ranges.hh: iterators over a sequence\<close>

text \<open>
  The underlying range is a finite sequence, modelled as a list. An iterator of the
  underlying range (\<open>RangeIt\<close>) is a position in it, modelled as an index: \<open>std::begin\<close>
  is index \<open>0\<close>, \<open>std::end\<close> is the length, \<open>++it\<close> adds one. Reading \<open>*it\<close> at a
  position that holds no element is undefined in C++; the model returns \<open>None\<close> there,
  and every function that reads through an iterator returns an option.
\<close>

definition range_begin :: "'a list \<Rightarrow> nat" where
  "range_begin xs = 0"

definition range_end :: "'a list \<Rightarrow> nat" where
  "range_end xs = length xs"

definition deref :: "'a list \<Rightarrow> nat \<Rightarrow> 'a option" where
  "deref xs i = (if i < length xs then Some (xs ! i) else None)"

subsection \<open>FilterView\<close>

record 'a FilterView =
  m_range :: "'a list"
  m_filter :: "'a \<Rightarrow> bool"

text \<open>
  The filter is a function object in the source; it is modelled as a pure predicate.
\<close>

text \<open>
  \<open>FilterView::Iterator\<close> holds \<open>m_it\<close>, \<open>m_end\<close> and a reference to its view; the
  view is passed to each operation.
\<close>

record FilterIterator =
  m_it :: nat
  m_end :: nat

text \<open>\<open>do_filter\<close>: \<open>while (m_it != m_end and not m_view.m_filter(*m_it)) ++m_it;\<close>\<close>

function do_filter :: "'a FilterView \<Rightarrow> FilterIterator \<Rightarrow> FilterIterator option" where
  "do_filter view it =
     (if m_it it \<noteq> m_end it then
        (case deref (m_range view) (m_it it) of
           None \<Rightarrow> None
         | Some x \<Rightarrow>
             if \<not> m_filter view x then do_filter view (it\<lparr>m_it := m_it it + 1\<rparr>)
             else Some it)
      else Some it)"
  by pat_completeness auto
termination
  by (relation "measure (\<lambda>(view, it). length (m_range view) - m_it it)")
     (auto simp: deref_def split: if_splits)

declare do_filter.simps [simp del]

text \<open>The constructor stores its arguments and runs \<open>do_filter\<close>.\<close>

definition FilterIterator_new :: "'a FilterView \<Rightarrow> nat \<Rightarrow> nat \<Rightarrow> FilterIterator option" where
  "FilterIterator_new view it e = do_filter view \<lparr>m_it = it, m_end = e\<rparr>"

text \<open>\<open>operator*\<close>: \<open>return *m_it;\<close>\<close>

definition FilterIterator_deref :: "'a FilterView \<Rightarrow> FilterIterator \<Rightarrow> 'a option" where
  "FilterIterator_deref view it = deref (m_range view) (m_it it)"

text \<open>\<open>operator++\<close>: \<open>++m_it; do_filter(); return *this;\<close>\<close>

definition FilterIterator_incr :: "'a FilterView \<Rightarrow> FilterIterator \<Rightarrow> FilterIterator option" where
  "FilterIterator_incr view it = do_filter view (it\<lparr>m_it := m_it it + 1\<rparr>)"

text \<open>\<open>operator==\<close> compares \<open>m_it\<close> only; \<open>operator!=\<close> is its negation.\<close>

definition FilterIterator_eq :: "FilterIterator \<Rightarrow> FilterIterator \<Rightarrow> bool" where
  "FilterIterator_eq lhs rhs = (m_it lhs = m_it rhs)"

definition FilterIterator_neq :: "FilterIterator \<Rightarrow> FilterIterator \<Rightarrow> bool" where
  "FilterIterator_neq lhs rhs = (\<not> FilterIterator_eq lhs rhs)"

definition FilterView_begin :: "'a FilterView \<Rightarrow> FilterIterator option" where
  "FilterView_begin view =
     FilterIterator_new view (range_begin (m_range view)) (range_end (m_range view))"

definition FilterView_end :: "'a FilterView \<Rightarrow> FilterIterator option" where
  "FilterView_end view =
     FilterIterator_new view (range_end (m_range view)) (range_end (m_range view))"

text \<open>
  Iterating a view is what \<open>gather\<close> does with \<open>Container(begin(range), end(range))\<close> and
  what a range-based \<open>for\<close> does: while \<open>first != last\<close>, take \<open>*first\<close>, then \<open>++first\<close>.
  The loop need not end for an arbitrary pair of iterators, so not returning is \<open>None\<close>.
\<close>

partial_function (option) FilterView_iterate ::
    "'a FilterView \<Rightarrow> FilterIterator \<Rightarrow> FilterIterator \<Rightarrow> 'a list option" where
  "FilterView_iterate view it_first it_last =
     (if FilterIterator_neq it_first it_last then
        do {
          x \<leftarrow> FilterIterator_deref view it_first;
          it_next \<leftarrow> FilterIterator_incr view it_first;
          rest \<leftarrow> FilterView_iterate view it_next it_last;
          Some (x # rest)
        }
      else Some [])"

definition FilterView_gather :: "'a FilterView \<Rightarrow> 'a list option" where
  "FilterView_gather view =
     do {
       it_first \<leftarrow> FilterView_begin view;
       it_last \<leftarrow> FilterView_end view;
       FilterView_iterate view it_first it_last
     }"

text \<open>\<open>filter(f)\<close> applied to a range builds the view \<open>{range, f}\<close>.\<close>

definition filter_view :: "('a \<Rightarrow> bool) \<Rightarrow> 'a list \<Rightarrow> 'a FilterView" where
  "filter_view f rng = \<lparr>m_range = rng, m_filter = f\<rparr>"

subsection \<open>SplitView\<close>

text \<open>
  The view is a template over the range and the type \<open>Separator\<close>, which defaults to the
  range's value type; both are the type \<open>'a\<close> here.
\<close>

record 'a SplitView =
  m_range :: "'a list"
  m_separator :: 'a

record 'a SplitIterator =
  pos :: nat
  sep :: nat
  end' :: nat
  separator :: 'a

text \<open>The constructor's loop: \<open>while (sep != end and *sep != separator) ++sep;\<close>\<close>

function SplitIterator_scan :: "'a list \<Rightarrow> 'a SplitIterator \<Rightarrow> 'a SplitIterator option" where
  "SplitIterator_scan rng it =
     (if sep it \<noteq> end' it then
        (case deref rng (sep it) of
           None \<Rightarrow> None
         | Some c \<Rightarrow>
             if c \<noteq> separator it then SplitIterator_scan rng (it\<lparr>sep := sep it + 1\<rparr>)
             else Some it)
      else Some it)"
  by pat_completeness auto
termination
  by (relation "measure (\<lambda>(rng, it). length rng - sep it)")
     (auto simp: deref_def split: if_splits)

declare SplitIterator_scan.simps [simp del]

text \<open>
  \<open>Iterator(RangeIt pos, RangeIt end, char separator)
   : pos(pos), sep(pos), end(end), separator(separator)\<close>.
  The parameter is a \<open>char\<close> and the member a \<open>Separator\<close>: the argument is converted to
  \<open>char\<close> and the member is initialised from that \<open>char\<close>. What the two conversions make
  of a separator depends on the type \<open>Separator\<close>; it is the argument \<open>through_char\<close>.
\<close>

definition SplitIterator_new ::
    "('a \<Rightarrow> 'a) \<Rightarrow> 'a list \<Rightarrow> nat \<Rightarrow> nat \<Rightarrow> 'a \<Rightarrow> 'a SplitIterator option" where
  "SplitIterator_new through_char rng p e s =
     SplitIterator_scan rng \<lparr>pos = p, sep = p, end' = e, separator = through_char s\<rparr>"

text \<open>
  For a \<open>char\<close> separator the conversions change nothing. For an \<open>int\<close> separator the
  conversion to \<open>char\<close> keeps the low eight bits, read as a signed \<open>char\<close>, and the member
  holds that value.
\<close>

definition char_through_char :: "char \<Rightarrow> char" where
  "char_through_char s = s"

definition int_through_char :: "int \<Rightarrow> int" where
  "int_through_char s = (s + 128) mod 256 - 128"

text \<open>
  The loop of \<open>advance\<close>:
  \<open>for (sep = pos; sep != end; ++sep) { if (*sep == separator) break; }\<close>,
  entered after \<open>sep = pos\<close>.
\<close>

function SplitIterator_advance_loop ::
    "'a list \<Rightarrow> 'a SplitIterator \<Rightarrow> 'a SplitIterator option" where
  "SplitIterator_advance_loop rng it =
     (if sep it \<noteq> end' it then
        (case deref rng (sep it) of
           None \<Rightarrow> None
         | Some c \<Rightarrow>
             if c = separator it then Some it
             else SplitIterator_advance_loop rng (it\<lparr>sep := sep it + 1\<rparr>))
      else Some it)"
  by pat_completeness auto
termination
  by (relation "measure (\<lambda>(rng, it). length rng - sep it)")
     (auto simp: deref_def split: if_splits)

declare SplitIterator_advance_loop.simps [simp del]

definition SplitIterator_advance :: "'a list \<Rightarrow> 'a SplitIterator \<Rightarrow> 'a SplitIterator option" where
  "SplitIterator_advance rng it =
     (if sep it = end' it then Some (it\<lparr>pos := end' it\<rparr>)
      else
        (let it1 = it\<lparr>pos := sep it + 1\<rparr>
         in SplitIterator_advance_loop rng (it1\<lparr>sep := pos it1\<rparr>)))"

text \<open>\<open>operator==\<close> and \<open>operator!=\<close> compare \<open>pos\<close> only.\<close>

definition SplitIterator_eq :: "'a SplitIterator \<Rightarrow> 'a SplitIterator \<Rightarrow> bool" where
  "SplitIterator_eq it other = (pos it = pos other)"

definition SplitIterator_neq :: "'a SplitIterator \<Rightarrow> 'a SplitIterator \<Rightarrow> bool" where
  "SplitIterator_neq it other = (pos it \<noteq> pos other)"

text \<open>\<open>operator*\<close>: \<open>return {pos, sep};\<close>, the pair of iterators bounding the segment.\<close>

definition SplitIterator_deref :: "'a SplitIterator \<Rightarrow> nat \<times> nat" where
  "SplitIterator_deref it = (pos it, sep it)"

definition SplitView_begin :: "('a \<Rightarrow> 'a) \<Rightarrow> 'a SplitView \<Rightarrow> 'a SplitIterator option" where
  "SplitView_begin through_char view =
     SplitIterator_new through_char (m_range view)
       (range_begin (m_range view)) (range_end (m_range view)) (m_separator view)"

definition SplitView_end :: "('a \<Rightarrow> 'a) \<Rightarrow> 'a SplitView \<Rightarrow> 'a SplitIterator option" where
  "SplitView_end through_char view =
     SplitIterator_new through_char (m_range view)
       (range_end (m_range view)) (range_end (m_range view)) (m_separator view)"

partial_function (option) SplitView_iterate ::
    "'a list \<Rightarrow> 'a SplitIterator \<Rightarrow> 'a SplitIterator \<Rightarrow> (nat \<times> nat) list option" where
  "SplitView_iterate rng it_first it_last =
     (if SplitIterator_neq it_first it_last then
        do {
          it_next \<leftarrow> SplitIterator_advance rng it_first;
          rest \<leftarrow> SplitView_iterate rng it_next it_last;
          Some (SplitIterator_deref it_first # rest)
        }
      else Some [])"

definition SplitView_gather :: "('a \<Rightarrow> 'a) \<Rightarrow> 'a SplitView \<Rightarrow> (nat \<times> nat) list option" where
  "SplitView_gather through_char view =
     do {
       it_first \<leftarrow> SplitView_begin through_char view;
       it_last \<leftarrow> SplitView_end through_char view;
       SplitView_iterate (m_range view) it_first it_last
     }"

text \<open>
  The elements between a yielded pair of iterators: what a \<open>ValueType\<close> built from
  \<open>{pos, sep}\<close> (a string view) holds.
\<close>

definition subrange :: "'a list \<Rightarrow> nat \<times> nat \<Rightarrow> 'a list" where
  "subrange rng pq = take (snd pq - fst pq) (drop (fst pq) rng)"

definition SplitView_segments :: "('a \<Rightarrow> 'a) \<Rightarrow> 'a SplitView \<Rightarrow> 'a list list option" where
  "SplitView_segments through_char view =
     map_option (map (subrange (m_range view))) (SplitView_gather through_char view)"

text \<open>\<open>split(separator)\<close> applied to a range builds the view \<open>{range, separator}\<close>.\<close>

definition split_view :: "'a \<Rightarrow> 'a list \<Rightarrow> 'a SplitView" where
  "split_view s rng = \<lparr>m_range = rng, m_separator = s\<rparr>"

text \<open>
  The segments a sequence falls into at its separators, for comparison with what the
  iteration yields: \<open>split_fields\<close> are the maximal separator-free runs, one more than there
  are separators; \<open>join\<close> puts them back together.
\<close>

fun split_fields :: "'a \<Rightarrow> 'a list \<Rightarrow> 'a list list" where
  "split_fields s [] = [[]]"
| "split_fields s (c # cs) =
     (if c = s then [] # split_fields s cs
      else (c # hd (split_fields s cs)) # tl (split_fields s cs))"

fun join :: "'a \<Rightarrow> 'a list list \<Rightarrow> 'a list" where
  "join s [] = []"
| "join s [f] = f"
| "join s (f # g # fs) = f @ s # join s (g # fs)"

text \<open>
  No segment for an empty input, and no empty last segment after a separator that ends
  the input.
\<close>

definition segments_without_trailing :: "'a \<Rightarrow> 'a list \<Rightarrow> 'a list list" where
  "segments_without_trailing s xs =
     (if xs = [] then []
      else if last xs = s then butlast (split_fields s xs)
      else split_fields s xs)"

section \<open>highlighter.hh\<close>

subsection \<open>Passes, display setup, context\<close>

text \<open>
  \<open>enum class HighlightPass\<close> has the underlying type \<open>int\<close>; with bit operations
  switched on its values are the 32-bit patterns.
\<close>

type_synonym HighlightPass = "32 word"

definition Wrap :: HighlightPass where
  "Wrap = push_bit 0 1"

definition Move :: HighlightPass where
  "Move = push_bit 1 1"

definition Colorize :: HighlightPass where
  "Colorize = push_bit 2 1"

definition All :: HighlightPass where
  "All = Wrap OR Move OR Colorize"

text \<open>
  Modelled from the spec: \<open>flags.hh\<close>, which gives \<open>operator&\<close> on an enum with bit
  operations and the conversion of its result to \<open>bool\<close>, is not among the sources.
  Pass flags are "combinable as a bit union" and an operation runs when the active pass
  "intersects the node's declared mask": the test is that the bitwise conjunction is
  not zero.
\<close>

definition flags_test :: "HighlightPass \<Rightarrow> bool" where
  "flags_test f = (f \<noteq> 0)"

text \<open>
  Modelled from the spec: \<open>coord.hh\<close> is not among the sources. Coordinates are
  "2-D line/column pairs"; a buffer range is a "coordinate pair".
\<close>

record LineAndColumn =
  line :: int
  column :: int

type_synonym DisplayCoord = LineAndColumn
type_synonym BufferCoord = LineAndColumn
type_synonym BufferRange = "BufferCoord \<times> BufferCoord"

record DisplaySetup =
  window_pos :: DisplayCoord
  window_range :: DisplayCoord
  cursor_pos :: DisplayCoord
  scroll_offset :: DisplayCoord
  full_lines :: bool

text \<open>
  The editing context (\<open>Context\<close>) and the display buffer (\<open>DisplayBuffer\<close>) are only
  declared here; they are the type parameters \<open>'c\<close> and \<open>'b\<close>.
\<close>

record 'c HighlightContext =
  "context" :: 'c
  pass :: HighlightPass
  disabled_ids :: "string list"

text \<open>\<open>runtime_error\<close>, with its message, is the exception the source throws.\<close>

text \<open>
  Modelled from the spec: the errors of the operations that are not among the sources.
  The spec's taxonomy names them "not found", "duplicate identifier" and "already
  registered"; each carries the identifier it is about.
\<close>

datatype error =
    runtime_error string
  | not_found string
  | duplicate_identifier string
  | already_registered string

subsection \<open>Highlighter nodes\<close>

text \<open>
  A highlighter is an object of a class derived from \<open>Highlighter\<close>. \<open>Leaf\<close> is a
  derived class that overrides none of the children operations: it has its pass mask
  \<open>m_passes\<close>, its \<open>do_highlight\<close> (pure virtual in the base) and, optionally, an override
  of \<open>do_compute_display_setup\<close> (\<open>None\<close>: the base's member is inherited). A member
  that mutates an object it gets by reference returns the new value, or the exception
  it throws.
\<close>

text \<open>
  Modelled from the spec: the class of the group, which is not among the sources.
  \<open>Group\<close> is the container; it "holds an ordered, insertion-order-preserving mapping
  id \<rightarrow> owned node". Like every \<open>Highlighter\<close> it has the pass mask its constructor was
  given: \<open>m_passes\<close> is a \<open>const\<close> member of the base, so no operation changes it.
\<close>

datatype ('c, 'b) Highlighter =
    Leaf HighlightPass
         "'c HighlightContext \<Rightarrow> 'b \<Rightarrow> BufferRange \<Rightarrow> error + 'b"
         "('c HighlightContext \<Rightarrow> DisplaySetup \<Rightarrow> error + DisplaySetup) option"
  | Group HighlightPass "(string \<times> ('c, 'b) Highlighter) list"

type_synonym ('c, 'b) HighlighterAndId = "string \<times> ('c, 'b) Highlighter"

text \<open>\<open>passes()\<close> returns \<open>m_passes\<close>.\<close>

fun passes :: "('c, 'b) Highlighter \<Rightarrow> HighlightPass" where
  "passes (Leaf m dh dc) = m"
| "passes (Group m cs) = m"

text \<open>The base's \<open>do_compute_display_setup\<close> has the empty body.\<close>

definition Highlighter_do_compute_display_setup ::
    "'c HighlightContext \<Rightarrow> DisplaySetup \<Rightarrow> error + DisplaySetup" where
  "Highlighter_do_compute_display_setup ctx setup = Inr setup"

text \<open>
  \<open>highlight\<close> and \<open>compute_display_setup\<close> are the base's non-virtual members; they
  call the virtual \<open>do_highlight\<close> and \<open>do_compute_display_setup\<close> when
  \<open>context.pass & m_passes\<close> holds.
\<close>

text \<open>
  Modelled from the spec: \<open>do_highlight\<close> and \<open>do_compute_display_setup\<close> of a group,
  whose class is not among the sources. Both are "forwarded, in child order, to every
  child whose identifier is absent from \<open>context.disabled_ids\<close>"; an exception of a
  child ends the traversal.
\<close>

fun highlight ::
      "('c, 'b) Highlighter \<Rightarrow> 'c HighlightContext \<Rightarrow> 'b \<Rightarrow> BufferRange \<Rightarrow> error + 'b"
  and do_highlight ::
      "('c, 'b) Highlighter \<Rightarrow> 'c HighlightContext \<Rightarrow> 'b \<Rightarrow> BufferRange \<Rightarrow> error + 'b"
  and HighlighterGroup_highlight_children ::
      "('c, 'b) HighlighterAndId list \<Rightarrow> 'c HighlightContext \<Rightarrow> 'b \<Rightarrow> BufferRange \<Rightarrow> error + 'b"
  where
  "highlight h ctx display_buffer rng =
     (if flags_test (pass ctx AND passes h) then do_highlight h ctx display_buffer rng
      else Inr display_buffer)"
| "do_highlight (Leaf p dh dc) ctx display_buffer rng = dh ctx display_buffer rng"
| "do_highlight (Group m cs) ctx display_buffer rng =
     HighlighterGroup_highlight_children cs ctx display_buffer rng"
| "HighlighterGroup_highlight_children [] ctx display_buffer rng = Inr display_buffer"
| "HighlighterGroup_highlight_children (hl # cs) ctx display_buffer rng =
     (if fst hl \<in> set (disabled_ids ctx) then
        HighlighterGroup_highlight_children cs ctx display_buffer rng
      else
        (case highlight (snd hl) ctx display_buffer rng of
           Inl e \<Rightarrow> Inl e
         | Inr display_buffer' \<Rightarrow>
             HighlighterGroup_highlight_children cs ctx display_buffer' rng))"

text \<open>
  Modelled from the spec: in \<open>compute_display_setup\<close>, the forwarding of a group to its
  children, as for \<open>highlight\<close>; the guard and the leaf's cases are the source's.
\<close>

fun compute_display_setup ::
      "('c, 'b) Highlighter \<Rightarrow> 'c HighlightContext \<Rightarrow> DisplaySetup \<Rightarrow> error + DisplaySetup"
  and do_compute_display_setup ::
      "('c, 'b) Highlighter \<Rightarrow> 'c HighlightContext \<Rightarrow> DisplaySetup \<Rightarrow> error + DisplaySetup"
  and HighlighterGroup_compute_children ::
      "('c, 'b) HighlighterAndId list \<Rightarrow> 'c HighlightContext \<Rightarrow> DisplaySetup \<Rightarrow> error + DisplaySetup"
  where
  "compute_display_setup h ctx setup =
     (if flags_test (pass ctx AND passes h) then do_compute_display_setup h ctx setup
      else Inr setup)"
| "do_compute_display_setup (Leaf p dh None) ctx setup =
     Highlighter_do_compute_display_setup ctx setup"
| "do_compute_display_setup (Leaf p dh (Some dc)) ctx setup = dc ctx setup"
| "do_compute_display_setup (Group m cs) ctx setup =
     HighlighterGroup_compute_children cs ctx setup"
| "HighlighterGroup_compute_children [] ctx setup = Inr setup"
| "HighlighterGroup_compute_children (hl # cs) ctx setup =
     (if fst hl \<in> set (disabled_ids ctx) then HighlighterGroup_compute_children cs ctx setup
      else
        (case compute_display_setup (snd hl) ctx setup of
           Inl e \<Rightarrow> Inl e
         | Inr setup' \<Rightarrow> HighlighterGroup_compute_children cs ctx setup'))"

subsection \<open>The children operations\<close>

text \<open>
  The base's virtual members: what a class that does not override them (a leaf) runs.
  \<open>Completions\<close> is declared in \<open>completion.hh\<close>, which is not among the sources; the
  base's \<open>complete_child\<close> never builds one, so only a list of candidates stands for it.
  A group has its own \<open>complete_child\<close>, which is not modelled; for a leaf,
  \<open>complete_child\<close> is \<open>Highlighter_complete_child\<close>.
\<close>

type_synonym Completions = "string list"

definition Highlighter_has_children :: bool where
  "Highlighter_has_children = False"

definition Highlighter_get_child :: "string \<Rightarrow> error + ('c, 'b) Highlighter" where
  "Highlighter_get_child path = Inl (runtime_error ''this highlighter do not hold children'')"

definition Highlighter_add_child ::
    "('c, 'b) HighlighterAndId \<Rightarrow> error + ('c, 'b) Highlighter" where
  "Highlighter_add_child hl = Inl (runtime_error ''this highlighter do not hold children'')"

definition Highlighter_remove_child :: "string \<Rightarrow> error + ('c, 'b) Highlighter" where
  "Highlighter_remove_child ident = Inl (runtime_error ''this highlighter do not hold children'')"

definition Highlighter_complete_child :: "string \<Rightarrow> int \<Rightarrow> bool \<Rightarrow> error + Completions" where
  "Highlighter_complete_child path cursor grp =
     Inl (runtime_error ''this highlighter do not hold children'')"

definition Highlighter_fill_unique_ids :: "string list \<Rightarrow> string list" where
  "Highlighter_fill_unique_ids unique_ids = unique_ids"

text \<open>Virtual dispatch of \<open>has_children\<close>; a group is a container.\<close>

fun has_children :: "('c, 'b) Highlighter \<Rightarrow> bool" where
  "has_children (Leaf p dh dc) = Highlighter_has_children"
| "has_children (Group m cs) = True"

text \<open>
  Modelled from the spec: the group's \<open>fill_unique_ids\<close> is not among the sources. It
  "recursively appends every identifier in the subtree": each child's identifier, then
  the identifiers below that child.
\<close>

fun fill_unique_ids :: "('c, 'b) Highlighter \<Rightarrow> string list \<Rightarrow> string list"
  and HighlighterGroup_fill_children ::
      "('c, 'b) HighlighterAndId list \<Rightarrow> string list \<Rightarrow> string list" where
  "fill_unique_ids (Leaf p dh dc) unique_ids = Highlighter_fill_unique_ids unique_ids"
| "fill_unique_ids (Group m cs) unique_ids = HighlighterGroup_fill_children cs unique_ids"
| "HighlighterGroup_fill_children [] unique_ids = unique_ids"
| "HighlighterGroup_fill_children (hl # cs) unique_ids =
     HighlighterGroup_fill_children cs (fill_unique_ids (snd hl) (unique_ids @ [fst hl]))"

text \<open>
  Modelled from the spec: the group's \<open>add_child\<close> is not among the sources. It "fails
  with "duplicate identifier" if id collides with any direct sibling or with any
  identifier anywhere in the whole attached tree (checked via a full-tree uniqueness
  scan from the root); on success appends at the end". The root of the tree the group
  is attached to is the argument \<open>root\<close>; the result is the group after the call, with
  the mask it had.
\<close>

definition HighlighterGroup_add_child ::
    "('c, 'b) Highlighter \<Rightarrow> HighlightPass \<Rightarrow> ('c, 'b) HighlighterAndId list \<Rightarrow>
     ('c, 'b) HighlighterAndId \<Rightarrow> error + ('c, 'b) Highlighter" where
  "HighlighterGroup_add_child root m cs hl =
     (if fst hl \<in> set (map fst cs) \<or> fst hl \<in> set (fill_unique_ids root [])
      then Inl (duplicate_identifier (fst hl))
      else Inr (Group m (cs @ [hl])))"

fun add_child ::
    "('c, 'b) Highlighter \<Rightarrow> ('c, 'b) Highlighter \<Rightarrow> ('c, 'b) HighlighterAndId \<Rightarrow>
     error + ('c, 'b) Highlighter" where
  "add_child root (Leaf p dh dc) hl = Highlighter_add_child hl"
| "add_child root (Group m cs) hl = HighlighterGroup_add_child root m cs hl"

text \<open>
  Modelled from the spec: the group's \<open>remove_child\<close> is not among the sources. It "fails
  with "not found" if absent; otherwise detaches and destroys the subtree".
\<close>

definition HighlighterGroup_remove_child ::
    "HighlightPass \<Rightarrow> ('c, 'b) HighlighterAndId list \<Rightarrow> string \<Rightarrow>
     error + ('c, 'b) Highlighter" where
  "HighlighterGroup_remove_child m cs ident =
     (if ident \<in> set (map fst cs) then Inr (Group m (filter (\<lambda>hl. fst hl \<noteq> ident) cs))
      else Inl (not_found ident))"

fun remove_child :: "('c, 'b) Highlighter \<Rightarrow> string \<Rightarrow> error + ('c, 'b) Highlighter" where
  "remove_child (Leaf p dh dc) ident = Highlighter_remove_child ident"
| "remove_child (Group m cs) ident = HighlighterGroup_remove_child m cs ident"

text \<open>
  Modelled from the spec: the group's \<open>get_child\<close> is not among the sources. The "path is
  a "/"-delimited sequence; each segment resolves one level; fails with "not found" if
  any segment is unresolved or names a non-container". The first segment is the path up
  to its first \<open>/\<close>; it is looked up among the children, and the rest of the path, when
  there is one, is resolved in the child found, which then has to be a container.
\<close>

function get_child :: "('c, 'b) Highlighter \<Rightarrow> string \<Rightarrow> error + ('c, 'b) Highlighter" where
  "get_child (Leaf p dh dc) path = Highlighter_get_child path"
| "get_child (Group m cs) path =
     (case map_of cs (takeWhile (\<lambda>c. c \<noteq> CHR ''/'') path) of
        None \<Rightarrow> Inl (not_found (takeWhile (\<lambda>c. c \<noteq> CHR ''/'') path))
      | Some child \<Rightarrow>
          (case dropWhile (\<lambda>c. c \<noteq> CHR ''/'') path of
             [] \<Rightarrow> Inr child
           | slash # path' \<Rightarrow>
               if has_children child then get_child child path'
               else Inl (not_found (takeWhile (\<lambda>c. c \<noteq> CHR ''/'') path))))"
  by pat_completeness auto
termination
proof (relation "measure (\<lambda>(h, path). length path)")
  show "wf (measure (\<lambda>(h :: ('c, 'b) Highlighter, path :: string). length path))"
    by simp
next
  fix m :: HighlightPass and cs :: "('c, 'b) HighlighterAndId list" and path :: string
    and child :: "('c, 'b) Highlighter" and slash :: char and path' :: string
  assume "dropWhile (\<lambda>c. c \<noteq> CHR ''/'') path = slash # path'"
  then have "length (slash # path') \<le> length path"
    by (metis length_dropWhile_le)
  then show "((child, path'), (Group m cs, path)) \<in> measure (\<lambda>(h, path). length path)"
    by simp
qed

declare get_child.simps [simp del]

subsection \<open>The registry\<close>

record ('c, 'b) HighlighterFactoryAndDocstring =
  factory :: "string list \<Rightarrow> ('c, 'b) HighlighterAndId"
  docstring :: string

text \<open>
  Modelled from the spec: the operations of the registry. \<open>HighlighterRegistry\<close> is a
  \<open>HashMap\<close> from the type name to the factory and its docstring; \<open>hash_map.hh\<close> is
  not among the sources and the header declares no operation of the registry. The
  registry is a "catalog mapping a type name to (construction factory, human-readable
  description)" with unique keys, and \<open>register(type_name, factory, description)\<close>
  "fails with "already registered" if the name exists".
\<close>

type_synonym ('c, 'b) HighlighterRegistry =
  "string \<rightharpoonup> ('c, 'b) HighlighterFactoryAndDocstring"

definition register ::
    "('c, 'b) HighlighterRegistry \<Rightarrow> string \<Rightarrow> (string list \<Rightarrow> ('c, 'b) HighlighterAndId) \<Rightarrow>
     string \<Rightarrow> error + ('c, 'b) HighlighterRegistry" where
  "register registry type_name fac description =
     (if type_name \<in> dom registry then Inl (already_registered type_name)
      else Inr (registry(type_name \<mapsto> \<lparr>factory = fac, docstring = description\<rparr>)))"

section \<open>Notions the properties are stated with\<close>



fun compute_each ::
    "('c, 'b) Highlighter list \<Rightarrow> 'c HighlightContext \<Rightarrow> DisplaySetup \<Rightarrow>
     error + DisplaySetup" where
  "compute_each [] ctx setup = Inr setup"
| "compute_each (h # hs) ctx setup =
     (case compute_display_setup h ctx setup of
        Inl e \<Rightarrow> Inl e
      | Inr setup' \<Rightarrow> compute_each hs ctx setup')"

text \<open>
  Leaves for the scenarios: two append a mark to a display buffer that is a string, one
  during the Colorize pass and one during the Move pass; one sets \<open>cursor_pos.line\<close>
  during the Move pass.
\<close>

definition marker :: "char \<Rightarrow> ('c, string) Highlighter" where
  "marker m = Leaf Colorize (\<lambda>ctx display_buffer rng. Inr (display_buffer @ [m])) None"


definition cursor_line_setter :: "int \<Rightarrow> ('c, 'b) Highlighter" where
  "cursor_line_setter n =
     Leaf Move (\<lambda>ctx display_buffer rng. Inr display_buffer)
       (Some (\<lambda>ctx setup. Inr (setup\<lparr>cursor_pos := (cursor_pos setup)\<lparr>line := n\<rparr>\<rparr>)))"

text \<open>A tree for the scenarios: the group \<open>a\<close> with the child \<open>b\<close>, and the leaf \<open>leaf\<close>.\<close>

definition example_tree :: "(unit, string) Highlighter" where
  "example_tree =
     Group Colorize
       [(''a'', Group Colorize [(''b'', marker CHR ''x'')]), (''leaf'', marker CHR ''y'')]"

text \<open>An identifier occurs in a tree when some group of the tree has a child of that name.\<close>

fun occurs_in :: "string \<Rightarrow> ('c, 'b) Highlighter \<Rightarrow> bool"
  and occurs_in_children :: "string \<Rightarrow> ('c, 'b) HighlighterAndId list \<Rightarrow> bool" where
  "occurs_in ident (Leaf p dh dc) = False"
| "occurs_in ident (Group m cs) = occurs_in_children ident cs"
| "occurs_in_children ident [] = False"
| "occurs_in_children ident (hl # cs) =
     (fst hl = ident \<or> occurs_in ident (snd hl) \<or> occurs_in_children ident cs)"

text \<open>
  The child a segment names in a node, and the node a sequence of segments leads to:
  each segment names a child of the node reached so far, and every node passed on the
  way is a container.
\<close>

fun child_named :: "('c, 'b) Highlighter \<Rightarrow> string \<Rightarrow> ('c, 'b) Highlighter option" where
  "child_named (Leaf p dh dc) seg = None"
| "child_named (Group m cs) seg = map_of cs seg"

inductive resolves ::
    "('c, 'b) Highlighter \<Rightarrow> string list \<Rightarrow> ('c, 'b) Highlighter \<Rightarrow> bool" where
  resolves_last: "child_named h seg = Some c \<Longrightarrow> resolves h [seg] c"
| resolves_step:
    "child_named h seg = Some c \<Longrightarrow> has_children c \<Longrightarrow> resolves c (seg' # segs) d \<Longrightarrow>
     resolves h (seg # seg' # segs) d"

code_pred resolves .

definition reaches ::
    "('c, 'b) Highlighter \<Rightarrow> string list \<Rightarrow> ('c, 'b) Highlighter \<Rightarrow> bool" where
  "reaches h segs n = (if segs = [] then n = h else resolves h segs n)"

text \<open>
  A segment fails in a node when it names no child of it, or names a child that is not
  a container although segments follow.
\<close>

definition segment_fails :: "('c, 'b) Highlighter \<Rightarrow> string \<Rightarrow> string list \<Rightarrow> bool" where
  "segment_fails n seg rest =
     (case child_named n seg of
        None \<Rightarrow> True
      | Some c \<Rightarrow> rest \<noteq> [] \<and> \<not> has_children c)"

section \<open>Properties of the views\<close>

lemma do_filter_skip:
  "i \<le> length (FilterView.m_range view) \<Longrightarrow>
   do_filter view \<lparr>m_it = i, m_end = length (FilterView.m_range view)\<rparr> =
     Some \<lparr>m_it = i + length (takeWhile (\<lambda>x. \<not> m_filter view x) (drop i (FilterView.m_range view))),
           m_end = length (FilterView.m_range view)\<rparr>"
proof (induction "length (FilterView.m_range view) - i" arbitrary: i)
  case 0
  then show ?case by (subst do_filter.simps) simp
next
  case (Suc k)
  then have lt: "i < length (FilterView.m_range view)" by simp
  then have dr: "drop i (FilterView.m_range view) = FilterView.m_range view ! i # drop (Suc i) (FilterView.m_range view)"
    by (simp add: Cons_nth_drop_Suc)
  show ?case
  proof (cases "m_filter view (FilterView.m_range view ! i)")
    case True
    with lt dr show ?thesis
      by (subst do_filter.simps) (simp add: deref_def)
  next
    case False
    have "do_filter view \<lparr>m_it = Suc i, m_end = length (FilterView.m_range view)\<rparr> =
          Some \<lparr>m_it = Suc i + length (takeWhile (\<lambda>x. \<not> m_filter view x) (drop (Suc i) (FilterView.m_range view))),
           m_end = length (FilterView.m_range view)\<rparr>"
      using Suc.hyps(1)[of "Suc i"] Suc.hyps(2) lt by simp
    with False lt dr show ?thesis
      by (subst do_filter.simps) (simp add: deref_def)
  qed
qed

lemma filter_after_skip:
  "filter P xs = filter P (drop (length (takeWhile (\<lambda>x. \<not> P x) xs)) xs)"
  by (induction xs) auto

lemma FilterView_iterate_from:
  "i \<le> length (FilterView.m_range view) \<Longrightarrow>
   FilterView_iterate view
     \<lparr>m_it = i + length (takeWhile (\<lambda>x. \<not> m_filter view x) (drop i (FilterView.m_range view))),
      m_end = length (FilterView.m_range view)\<rparr>
     \<lparr>m_it = length (FilterView.m_range view), m_end = length (FilterView.m_range view)\<rparr> =
   Some (filter (m_filter view) (drop i (FilterView.m_range view)))"
proof (induction "length (FilterView.m_range view) - i" arbitrary: i rule: less_induct)
  case less
  let ?xs = "FilterView.m_range view" and ?P = "m_filter view"
  let ?n = "length ?xs"
  let ?tw = "takeWhile (\<lambda>x. \<not> ?P x) (drop i ?xs)"
  let ?j = "i + length ?tw"
  have jle: "?j \<le> ?n"
    using less.prems length_takeWhile_le[of "\<lambda>x. \<not> ?P x" "drop i ?xs"] by simp
  show ?case
  proof (cases "?j = ?n")
    case True
    then have "length ?tw = length (drop i ?xs)" using less.prems by simp
    then have "?tw = drop i ?xs"
      by (metis takeWhile_eq_take take_all order_refl)
    then have "\<forall>x\<in>set (drop i ?xs). \<not> ?P x"
      by (metis set_takeWhileD)
    then have "filter ?P (drop i ?xs) = []" by (simp add: filter_empty_conv)
    with True show ?thesis
      by (subst FilterView_iterate.simps) (simp add: FilterIterator_neq_def FilterIterator_eq_def)
  next
    case False
    with jle have jlt: "?j < ?n" by simp
    then have twlt: "length ?tw < length (drop i ?xs)" by simp
    have nth: "?xs ! ?j = drop i ?xs ! length ?tw"
      using less.prems by simp
    have Pj: "?P (?xs ! ?j)"
      using nth_length_takeWhile[OF twlt] nth by simp
    have split: "filter ?P (drop i ?xs) = filter ?P (drop ?j ?xs)"
      using filter_after_skip[of ?P "drop i ?xs"] by (simp add: add.commute)
    have dj: "drop ?j ?xs = ?xs ! ?j # drop (Suc ?j) ?xs"
      using jlt by (simp add: Cons_nth_drop_Suc)
    have res: "filter ?P (drop i ?xs) = ?xs ! ?j # filter ?P (drop (Suc ?j) ?xs)"
      using split dj Pj by simp
    have incr: "FilterIterator_incr view \<lparr>m_it = ?j, m_end = ?n\<rparr> =
        Some \<lparr>m_it = Suc ?j + length (takeWhile (\<lambda>x. \<not> ?P x) (drop (Suc ?j) ?xs)), m_end = ?n\<rparr>"
      using do_filter_skip[of "Suc ?j" view] jlt by (simp add: FilterIterator_incr_def)
    have m: "?n - Suc ?j < ?n - i" and le: "Suc ?j \<le> ?n"
      using jlt by arith+
    have ih: "FilterView_iterate view
        \<lparr>m_it = Suc ?j + length (takeWhile (\<lambda>x. \<not> ?P x) (drop (Suc ?j) ?xs)), m_end = ?n\<rparr>
        \<lparr>m_it = ?n, m_end = ?n\<rparr> = Some (filter ?P (drop (Suc ?j) ?xs))"
      using less.hyps[OF m le] by simp
    show ?thesis
      apply (subst FilterView_iterate.simps)
      using False jlt incr ih res
      by (simp add: FilterIterator_neq_def FilterIterator_eq_def FilterIterator_deref_def deref_def)
  qed
qed

text \<open>
  C10. Iterating a \<open>FilterView\<close> from \<open>begin()\<close> to \<open>end()\<close> ends and yields exactly
  the elements of the underlying range that satisfy the predicate, in their order in
  the range.
\<close>

theorem FilterView_yields_filter:
  "FilterView_gather (filter_view f xs) = Some (filter f xs)"
  using do_filter_skip[of 0 "filter_view f xs"]
        do_filter_skip[of "length xs" "filter_view f xs"]
        FilterView_iterate_from[of 0 "filter_view f xs"]
  by (simp add: FilterView_gather_def FilterView_begin_def FilterView_end_def
      FilterIterator_new_def range_begin_def range_end_def filter_view_def)

lemma fields_not_Nil: "split_fields s xs \<noteq> []"
  by (induction xs) auto

lemma fields_unfold:
  "split_fields s ys = takeWhile (\<lambda>c. c \<noteq> s) ys #
     (case dropWhile (\<lambda>c. c \<noteq> s) ys of [] \<Rightarrow> [] | x # rest \<Rightarrow> split_fields s rest)"
  by (induction ys) auto

lemma fields_separator_free: "f \<in> set (split_fields s xs) \<Longrightarrow> s \<notin> set f"
proof (induction xs arbitrary: f)
  case Nil
  then show ?case by simp
next
  case (Cons c cs)
  obtain g gs where F: "split_fields s cs = g # gs"
    using fields_not_Nil[of s cs] by (cases "split_fields s cs") auto
  show ?case
  proof (cases "c = s")
    case True
    with Cons show ?thesis by auto
  next
    case False
    with Cons.prems F have "f = c # g \<or> f \<in> set gs" by simp
    then show ?thesis
      using Cons.IH[of g] Cons.IH[of f] F False by auto
  qed
qed

lemma join_Cons: "join s ((c # f) # fs) = c # join s (f # fs)"
  by (cases fs) auto

lemma join_fields: "join s (split_fields s xs) = xs"
proof (induction xs)
  case Nil
  then show ?case by simp
next
  case (Cons c cs)
  obtain g gs where F: "split_fields s cs = g # gs"
    using fields_not_Nil[of s cs] by (cases "split_fields s cs") auto
  with Cons show ?case by (auto simp: join_Cons)
qed

lemma segments_without_trailing_unfold:
  assumes "ys \<noteq> []"
  shows "segments_without_trailing s ys = takeWhile (\<lambda>c. c \<noteq> s) ys #
     (case dropWhile (\<lambda>c. c \<noteq> s) ys of [] \<Rightarrow> [] | x # rest \<Rightarrow> segments_without_trailing s rest)"
proof (cases "dropWhile (\<lambda>c. c \<noteq> s) ys")
  case Nil
  then have all: "\<forall>c\<in>set ys. c \<noteq> s" by (simp add: dropWhile_eq_Nil_conv)
  then have "last ys \<noteq> s" using assms last_in_set by blast
  moreover have "split_fields s ys = [takeWhile (\<lambda>c. c \<noteq> s) ys]"
    using fields_unfold[of s ys] Nil by simp
  ultimately show ?thesis using assms
    unfolding Nil by (simp add: segments_without_trailing_def)
next
  case (Cons x rest)
  have ys: "ys = takeWhile (\<lambda>c. c \<noteq> s) ys @ x # rest"
    using takeWhile_dropWhile_id[of "\<lambda>c. c \<noteq> s" ys] Cons by simp
  have x: "x = s" using Cons hd_dropWhile[of "\<lambda>c. c \<noteq> s" ys] by auto
  have F: "split_fields s ys = takeWhile (\<lambda>c. c \<noteq> s) ys # split_fields s rest"
    using fields_unfold[of s ys] Cons by simp
  show ?thesis
  proof (cases "rest = []")
    case True
    then have "last ys = s" using ys x by (metis last_snoc append_Cons append_Nil last_appendR list.distinct(1) last_ConsL)
    with True F assms Cons show ?thesis
      by (simp add: segments_without_trailing_def)
  next
    case False
    then have "last ys = last rest" using ys
      by (metis last_appendR last_ConsR list.distinct(1))
    with False F assms Cons fields_not_Nil[of s rest] show ?thesis
      by (simp add: segments_without_trailing_def)
  qed
qed

lemma SplitIterator_scan_skip:
  "q \<le> length xs \<Longrightarrow>
   SplitIterator_scan xs \<lparr>pos = p, sep = q, end' = length xs, separator = s\<rparr> =
     Some \<lparr>pos = p, sep = q + length (takeWhile (\<lambda>c. c \<noteq> s) (drop q xs)),
           end' = length xs, separator = s\<rparr>"
proof (induction "length xs - q" arbitrary: q)
  case 0
  then show ?case by (subst SplitIterator_scan.simps) simp
next
  case (Suc k)
  then have lt: "q < length xs" by simp
  then have dr: "drop q xs = xs ! q # drop (Suc q) xs"
    by (simp add: Cons_nth_drop_Suc)
  show ?case
  proof (cases "xs ! q = s")
    case True
    with lt dr show ?thesis
      by (subst SplitIterator_scan.simps) (simp add: deref_def)
  next
    case False
    have "SplitIterator_scan xs \<lparr>pos = p, sep = Suc q, end' = length xs, separator = s\<rparr> =
     Some \<lparr>pos = p, sep = Suc q + length (takeWhile (\<lambda>c. c \<noteq> s) (drop (Suc q) xs)),
           end' = length xs, separator = s\<rparr>"
      using Suc.hyps(1)[of "Suc q"] Suc.hyps(2) lt by simp
    with False lt dr show ?thesis
      by (subst SplitIterator_scan.simps) (simp add: deref_def)
  qed
qed

lemma SplitIterator_advance_loop_skip:
  "q \<le> length xs \<Longrightarrow>
   SplitIterator_advance_loop xs \<lparr>pos = p, sep = q, end' = length xs, separator = s\<rparr> =
     Some \<lparr>pos = p, sep = q + length (takeWhile (\<lambda>c. c \<noteq> s) (drop q xs)),
           end' = length xs, separator = s\<rparr>"
proof (induction "length xs - q" arbitrary: q)
  case 0
  then show ?case by (subst SplitIterator_advance_loop.simps) simp
next
  case (Suc k)
  then have lt: "q < length xs" by simp
  then have dr: "drop q xs = xs ! q # drop (Suc q) xs"
    by (simp add: Cons_nth_drop_Suc)
  show ?case
  proof (cases "xs ! q = s")
    case True
    with lt dr show ?thesis
      by (subst SplitIterator_advance_loop.simps) (simp add: deref_def)
  next
    case False
    have "SplitIterator_advance_loop xs \<lparr>pos = p, sep = Suc q, end' = length xs, separator = s\<rparr> =
     Some \<lparr>pos = p, sep = Suc q + length (takeWhile (\<lambda>c. c \<noteq> s) (drop (Suc q) xs)),
           end' = length xs, separator = s\<rparr>"
      using Suc.hyps(1)[of "Suc q"] Suc.hyps(2) lt by simp
    with False lt dr show ?thesis
      by (subst SplitIterator_advance_loop.simps) (simp add: deref_def)
  qed
qed

lemma SplitView_iterate_from:
  "p \<le> length xs \<Longrightarrow>
   \<exists>ps. SplitView_iterate xs
       \<lparr>pos = p, sep = p + length (takeWhile (\<lambda>c. c \<noteq> s) (drop p xs)),
        end' = length xs, separator = s\<rparr>
       \<lparr>pos = length xs, sep = length xs, end' = length xs, separator = s\<rparr> = Some ps
     \<and> map (subrange xs) ps = segments_without_trailing s (drop p xs)"
proof (induction "length xs - p" arbitrary: p rule: less_induct)
  case less
  let ?n = "length xs"
  let ?ys = "drop p xs"
  let ?tw = "takeWhile (\<lambda>c. c \<noteq> s) ?ys"
  let ?q = "p + length ?tw"
  let ?last = "\<lparr>pos = ?n, sep = ?n, end' = ?n, separator = s\<rparr>"
  show ?case
  proof (cases "p = ?n")
    case True
    then show ?thesis
      by (subst SplitView_iterate.simps)
         (simp add: SplitIterator_neq_def segments_without_trailing_def)
  next
    case False
    with less.prems have plt: "p < ?n" by simp
    then have ysne: "?ys \<noteq> []" by simp
    have qle: "?q \<le> ?n"
      using less.prems length_takeWhile_le[of "\<lambda>c. c \<noteq> s" ?ys] by simp
    have seg: "subrange xs (p, ?q) = ?tw"
      by (simp add: subrange_def takeWhile_eq_take[symmetric])
    have dw: "dropWhile (\<lambda>c. c \<noteq> s) ?ys = drop ?q xs"
      by (simp add: dropWhile_eq_drop add.commute)
    show ?thesis
    proof (cases "?q = ?n")
      case True
      have adv: "SplitIterator_advance xs \<lparr>pos = p, sep = ?q, end' = ?n, separator = s\<rparr> = Some ?last"
        using True by (simp add: SplitIterator_advance_def)
      have it2: "SplitView_iterate xs ?last ?last = Some []"
        by (subst SplitView_iterate.simps) (simp add: SplitIterator_neq_def)
      have W: "segments_without_trailing s ?ys = [?tw]"
        using segments_without_trailing_unfold[OF ysne, of s] dw True by simp
      show ?thesis
        apply (subst SplitView_iterate.simps)
        using plt adv it2 W seg
        by (simp add: SplitIterator_neq_def SplitIterator_deref_def)
    next
      case False
      with qle have qlt: "?q < ?n" by simp
      let ?next = "\<lparr>pos = Suc ?q, sep = Suc ?q + length (takeWhile (\<lambda>c. c \<noteq> s) (drop (Suc ?q) xs)),
           end' = ?n, separator = s\<rparr>"
      have adv: "SplitIterator_advance xs \<lparr>pos = p, sep = ?q, end' = ?n, separator = s\<rparr> = Some ?next"
        using False SplitIterator_advance_loop_skip[of "Suc ?q" xs "Suc ?q" s] qlt
        by (simp add: SplitIterator_advance_def)
      have m: "length xs - Suc ?q < length xs - p" and le: "Suc ?q \<le> length xs"
        using qlt by arith+
      obtain ps where ih: "SplitView_iterate xs ?next ?last = Some ps"
        and ihm: "map (subrange xs) ps = segments_without_trailing s (drop (Suc ?q) xs)"
        using less.hyps[OF m le] by auto
      have dq: "drop ?q xs = xs ! ?q # drop (Suc ?q) xs"
        using qlt by (simp add: Cons_nth_drop_Suc)
      have W: "segments_without_trailing s ?ys = ?tw # segments_without_trailing s (drop (Suc ?q) xs)"
        using segments_without_trailing_unfold[OF ysne, of s] dw dq by simp
      show ?thesis
        apply (subst SplitView_iterate.simps)
        using plt adv ih ihm W seg
        by (simp add: SplitIterator_neq_def SplitIterator_deref_def)
    qed
  qed
qed

lemma SplitView_segments_eq:
  "SplitView_segments through_char (split_view s xs) =
   Some (segments_without_trailing (through_char s) xs)"
  using SplitIterator_scan_skip[of 0 xs 0 "through_char s"]
        SplitIterator_scan_skip[of "length xs" xs "length xs" "through_char s"]
        SplitView_iterate_from[of 0 xs "through_char s"]
  by (auto simp: SplitView_segments_def SplitView_gather_def SplitView_begin_def
      SplitView_end_def SplitIterator_new_def range_begin_def range_end_def split_view_def)

text \<open>
  On strings, where the separator is a \<open>char\<close>, the iteration yields the maximal
  separator-free segments of the input, without a segment for the empty input and
  without an empty segment after a separator that ends the input.
\<close>

lemma SplitView_string_segments:
  "SplitView_segments char_through_char (split_view s xs) = Some (segments_without_trailing s xs)
   \<and> split_fields s xs \<noteq> [] \<and> (\<forall>f\<in>set (split_fields s xs). s \<notin> set f)
   \<and> join s (split_fields s xs) = xs
   \<and> SplitView_segments char_through_char (split_view CHR ''/'' []) = Some []
   \<and> SplitView_segments char_through_char (split_view CHR ''/'' ''a/'') = Some [''a'']
   \<and> SplitView_segments char_through_char (split_view CHR ''/'' ''/a'') = Some ['''', ''a'']"
  by (simp add: SplitView_segments_eq fields_not_Nil fields_separator_free join_fields
      segments_without_trailing_def char_through_char_def)

text \<open>
  C9. The iteration is to yield the maximal separator-free segments for every input
  sequence and separator. The iterator's constructor takes the separator as a \<open>char\<close>:
  over \<open>int\<close>, the separator 300 is held as 44, so \<open>[1, 300, 2, 44, 3]\<close> split at 300
  yields \<open>[1, 300, 2]\<close> and \<open>[3]\<close>, where the segments at 300 are \<open>[1]\<close> and \<open>[2, 44, 3]\<close>.
\<close>

theorem SplitView_separator_taken_as_char:
  "SplitView_segments int_through_char (split_view 300 [1, 300, 2, 44, 3])
     = Some [[1, 300, 2], [3]]
   \<and> segments_without_trailing (300 :: int) [1, 300, 2, 44, 3] = [[1], [2, 44, 3]]"
  by (simp add: SplitView_segments_eq segments_without_trailing_def int_through_char_def)

section \<open>Properties of the highlighters\<close>

text \<open>
  C1. For every node, \<open>highlight\<close> and \<open>compute_display_setup\<close> called with a pass that
  does not intersect the node's pass mask return normally and leave the display buffer
  and the display setup as they were.
\<close>

theorem disjoint_pass_is_noop:
  "pass ctx AND passes h = 0 \<Longrightarrow>
   highlight h ctx display_buffer rng = Inr display_buffer \<and>
   compute_display_setup h ctx setup = Inr setup"
  by (simp add: flags_test_def)

theorem disjoint_pass_is_noop_witness:
  "pass \<lparr>context = (), pass = Move, disabled_ids = []\<rparr>
     AND passes (Leaf Colorize (\<lambda>ctx b rng. Inl (runtime_error ''fails''))
                   (Some (\<lambda>ctx s. Inl (runtime_error ''fails'')))) = 0
   \<and> highlight (Leaf Colorize (\<lambda>ctx b rng. Inl (runtime_error ''fails''))
                   (Some (\<lambda>ctx s. Inl (runtime_error ''fails''))))
        \<lparr>context = (), pass = Move, disabled_ids = []\<rparr> ''text''
        (\<lparr>line = 0, column = 0\<rparr>, \<lparr>line = 1, column = 0\<rparr>) = Inr ''text''
   \<and> compute_display_setup (Leaf Colorize (\<lambda>ctx b rng. Inl (runtime_error ''fails''))
                   (Some (\<lambda>ctx s. Inl (runtime_error ''fails''))))
        \<lparr>context = (), pass = Move, disabled_ids = []\<rparr>
        \<lparr>window_pos = \<lparr>line = 0, column = 0\<rparr>, window_range = \<lparr>line = 24, column = 80\<rparr>,
         cursor_pos = \<lparr>line = 3, column = 4\<rparr>, scroll_offset = \<lparr>line = 0, column = 0\<rparr>,
         full_lines = False\<rparr>
      = Inr \<lparr>window_pos = \<lparr>line = 0, column = 0\<rparr>, window_range = \<lparr>line = 24, column = 80\<rparr>,
         cursor_pos = \<lparr>line = 3, column = 4\<rparr>, scroll_offset = \<lparr>line = 0, column = 0\<rparr>,
         full_lines = False\<rparr>"
proof -
  have disjoint: "pass \<lparr>context = (), pass = Move, disabled_ids = []\<rparr>
     AND passes (Leaf Colorize (\<lambda>ctx (b :: string) rng. Inl (runtime_error ''fails''))
                   (Some (\<lambda>ctx s. Inl (runtime_error ''fails'')))) = 0"
    by (simp add: Move_def Colorize_def)
  show ?thesis
    using disjoint disjoint_pass_is_noop[OF disjoint] by (simp add: flags_test_def)
qed

text \<open>
  C7. A highlighter that does not override \<open>do_compute_display_setup\<close> leaves the display
  setup unchanged in \<open>compute_display_setup\<close>, whatever the pass and its mask.
\<close>

theorem default_geometry_hook_is_noop:
  "compute_display_setup (Leaf p dh None) ctx setup = Inr setup"
  by (simp add: Highlighter_do_compute_display_setup_def)

text \<open>
  C4. For a leaf, \<open>has_children\<close> is false, and \<open>get_child\<close>, \<open>add_child\<close>,
  \<open>remove_child\<close> and \<open>complete_child\<close> each fail with the error that the highlighter
  does not hold children.
\<close>

theorem leaf_rejects_children_operations:
  "\<not> has_children (Leaf p dh dc)
   \<and> get_child (Leaf p dh dc) path = Inl (runtime_error ''this highlighter do not hold children'')
   \<and> add_child root (Leaf p dh dc) hl = Inl (runtime_error ''this highlighter do not hold children'')
   \<and> remove_child (Leaf p dh dc) ident = Inl (runtime_error ''this highlighter do not hold children'')
   \<and> Highlighter_complete_child path cursor grp = Inl (runtime_error ''this highlighter do not hold children'')"
  by (simp add: get_child.simps Highlighter_has_children_def Highlighter_get_child_def
      Highlighter_add_child_def Highlighter_remove_child_def Highlighter_complete_child_def)









lemma compute_children_each:
  "HighlighterGroup_compute_children cs ctx s =
   compute_each (map snd (filter (\<lambda>hl. fst hl \<notin> set (disabled_ids ctx)) cs)) ctx s"
  by (induction cs arbitrary: s) (auto split: sum.splits)

lemma compute_children_snoc:
  "HighlighterGroup_compute_children (cs @ [hl]) ctx s =
     (case HighlighterGroup_compute_children cs ctx s of
        Inl e \<Rightarrow> Inl e
      | Inr s' \<Rightarrow>
          if fst hl \<in> set (disabled_ids ctx) then Inr s'
          else compute_display_setup (snd hl) ctx s')"
  by (induction cs arbitrary: s) (auto split: sum.splits)

lemma group_compute_each:
  "flags_test (pass ctx AND m) \<Longrightarrow>
   compute_display_setup (Group m cs) ctx setup =
   compute_each (map snd (filter (\<lambda>hl. fst hl \<notin> set (disabled_ids ctx)) cs)) ctx setup"
  by (simp add: compute_children_each)

lemma group_compute_snoc:
  "flags_test (pass ctx AND m) \<Longrightarrow>
   compute_display_setup (Group m (cs @ [hl])) ctx setup =
     (case compute_display_setup (Group m cs) ctx setup of
        Inl e \<Rightarrow> Inl e
      | Inr setup' \<Rightarrow>
          if fst hl \<in> set (disabled_ids ctx) then Inr setup'
          else compute_display_setup (snd hl) ctx setup')"
  by (simp add: compute_children_snoc)

text \<open>
  C6. In a pass over a group (the mask of the group intersects the pass, as in the Move
  pass over a group declared for Move), \<open>compute_display_setup\<close> is the sequence of the
  calls on the children that are not disabled, in the order of the children, each
  working on the setup the one before left; so the child added last writes last, on top
  of what the others wrote. In the Move pass over a group declared for Move, child \<open>a\<close>
  setting \<open>cursor_pos.line\<close> to 5 followed by child \<open>b\<close> setting it to 7 leaves 7; with
  the two children in the other order it leaves 5. Nothing else of the setup changes.
\<close>

theorem move_pass_last_writer_wins:
  "(flags_test (pass ctx AND m) \<longrightarrow>
      compute_display_setup (Group m cs) ctx setup =
        compute_each (map snd (filter (\<lambda>hl. fst hl \<notin> set (disabled_ids ctx)) cs)) ctx setup
      \<and> compute_display_setup (Group m (cs @ [hl])) ctx setup =
        (case compute_display_setup (Group m cs) ctx setup of
           Inl e \<Rightarrow> Inl e
         | Inr setup' \<Rightarrow>
             if fst hl \<in> set (disabled_ids ctx) then Inr setup'
             else compute_display_setup (snd hl) ctx setup'))
   \<and> (flags_test (Move AND m) \<longrightarrow>
      compute_display_setup
        (Group m [(''a'', cursor_line_setter 5), (''b'', cursor_line_setter 7)])
        \<lparr>context = c, pass = Move, disabled_ids = []\<rparr> setup
      = Inr (setup\<lparr>cursor_pos := (cursor_pos setup)\<lparr>line := 7\<rparr>\<rparr>)
      \<and> compute_display_setup
        (Group m [(''b'', cursor_line_setter 7), (''a'', cursor_line_setter 5)])
        \<lparr>context = c, pass = Move, disabled_ids = []\<rparr> setup
      = Inr (setup\<lparr>cursor_pos := (cursor_pos setup)\<lparr>line := 5\<rparr>\<rparr>))"
proof (intro conjI impI)
  assume g: "flags_test (pass ctx AND m)"
  show "compute_display_setup (Group m cs) ctx setup =
        compute_each (map snd (filter (\<lambda>hl. fst hl \<notin> set (disabled_ids ctx)) cs)) ctx setup"
    using g by (rule group_compute_each)
  show "compute_display_setup (Group m (cs @ [hl])) ctx setup =
        (case compute_display_setup (Group m cs) ctx setup of
           Inl e \<Rightarrow> Inl e
         | Inr setup' \<Rightarrow>
             if fst hl \<in> set (disabled_ids ctx) then Inr setup'
             else compute_display_setup (snd hl) ctx setup')"
    using g by (rule group_compute_snoc)
qed (simp_all add: cursor_line_setter_def Move_def flags_test_def)

theorem move_pass_last_writer_wins_witness:
  "flags_test (pass \<lparr>context = (), pass = Move, disabled_ids = [''x'']\<rparr> AND Move)
   \<and> compute_display_setup
        (Group Move [(''a'', cursor_line_setter 5), (''x'', cursor_line_setter 9)]
           :: (unit, string) Highlighter)
        \<lparr>context = (), pass = Move, disabled_ids = [''x'']\<rparr>
        \<lparr>window_pos = \<lparr>line = 0, column = 0\<rparr>, window_range = \<lparr>line = 24, column = 80\<rparr>,
         cursor_pos = \<lparr>line = 3, column = 4\<rparr>, scroll_offset = \<lparr>line = 0, column = 0\<rparr>,
         full_lines = False\<rparr>
      = compute_each [cursor_line_setter 5 :: (unit, string) Highlighter]
        \<lparr>context = (), pass = Move, disabled_ids = [''x'']\<rparr>
        \<lparr>window_pos = \<lparr>line = 0, column = 0\<rparr>, window_range = \<lparr>line = 24, column = 80\<rparr>,
         cursor_pos = \<lparr>line = 3, column = 4\<rparr>, scroll_offset = \<lparr>line = 0, column = 0\<rparr>,
         full_lines = False\<rparr>
   \<and> compute_display_setup
        (Group Move ([(''a'', cursor_line_setter 5), (''x'', cursor_line_setter 9)]
                       @ [(''b'', cursor_line_setter 7)]) :: (unit, string) Highlighter)
        \<lparr>context = (), pass = Move, disabled_ids = [''x'']\<rparr>
        \<lparr>window_pos = \<lparr>line = 0, column = 0\<rparr>, window_range = \<lparr>line = 24, column = 80\<rparr>,
         cursor_pos = \<lparr>line = 3, column = 4\<rparr>, scroll_offset = \<lparr>line = 0, column = 0\<rparr>,
         full_lines = False\<rparr>
      = Inr \<lparr>window_pos = \<lparr>line = 0, column = 0\<rparr>, window_range = \<lparr>line = 24, column = 80\<rparr>,
         cursor_pos = \<lparr>line = 7, column = 4\<rparr>, scroll_offset = \<lparr>line = 0, column = 0\<rparr>,
         full_lines = False\<rparr>
   \<and> flags_test (Move AND Move)
   \<and> compute_display_setup
        (Group Move [(''a'', cursor_line_setter 5), (''b'', cursor_line_setter 7)]
           :: (unit, string) Highlighter)
        \<lparr>context = (), pass = Move, disabled_ids = []\<rparr>
        \<lparr>window_pos = \<lparr>line = 0, column = 0\<rparr>, window_range = \<lparr>line = 24, column = 80\<rparr>,
         cursor_pos = \<lparr>line = 3, column = 4\<rparr>, scroll_offset = \<lparr>line = 0, column = 0\<rparr>,
         full_lines = False\<rparr>
      = Inr \<lparr>window_pos = \<lparr>line = 0, column = 0\<rparr>, window_range = \<lparr>line = 24, column = 80\<rparr>,
         cursor_pos = \<lparr>line = 7, column = 4\<rparr>, scroll_offset = \<lparr>line = 0, column = 0\<rparr>,
         full_lines = False\<rparr>
   \<and> compute_display_setup
        (Group Move [(''b'', cursor_line_setter 7), (''a'', cursor_line_setter 5)]
           :: (unit, string) Highlighter)
        \<lparr>context = (), pass = Move, disabled_ids = []\<rparr>
        \<lparr>window_pos = \<lparr>line = 0, column = 0\<rparr>, window_range = \<lparr>line = 24, column = 80\<rparr>,
         cursor_pos = \<lparr>line = 3, column = 4\<rparr>, scroll_offset = \<lparr>line = 0, column = 0\<rparr>,
         full_lines = False\<rparr>
      = Inr \<lparr>window_pos = \<lparr>line = 0, column = 0\<rparr>, window_range = \<lparr>line = 24, column = 80\<rparr>,
         cursor_pos = \<lparr>line = 5, column = 4\<rparr>, scroll_offset = \<lparr>line = 0, column = 0\<rparr>,
         full_lines = False\<rparr>"
proof -
  let ?ctx = "\<lparr>context = (), pass = Move, disabled_ids = [''x'']\<rparr>"
  let ?cs = "[(''a'', cursor_line_setter 5), (''x'', cursor_line_setter 9)]
               :: (unit, string) HighlighterAndId list"
  let ?s = "\<lparr>window_pos = \<lparr>line = 0, column = 0\<rparr>, window_range = \<lparr>line = 24, column = 80\<rparr>,
         cursor_pos = \<lparr>line = 3, column = 4\<rparr>, scroll_offset = \<lparr>line = 0, column = 0\<rparr>,
         full_lines = False\<rparr>"
  have g: "flags_test (pass ?ctx AND Move)"
    by (simp add: Move_def flags_test_def)
  let ?b = "(''b'', cursor_line_setter 7) :: (unit, string) HighlighterAndId"
  note both = mp[OF move_pass_last_writer_wins[of ?ctx Move ?cs ?s ?b, THEN conjunct1] g]
  have seq: "compute_display_setup (Group Move ?cs) ?ctx ?s =
             compute_each (map snd (filter (\<lambda>hl. fst hl \<notin> set (disabled_ids ?ctx)) ?cs)) ?ctx ?s"
    by (rule both[THEN conjunct1])
  have snoc: "compute_display_setup (Group Move (?cs @ [?b])) ?ctx ?s =
        (case compute_display_setup (Group Move ?cs) ?ctx ?s of
           Inl e \<Rightarrow> Inl e
         | Inr setup' \<Rightarrow>
             if fst ?b \<in> set (disabled_ids ?ctx) then Inr setup'
             else compute_display_setup (snd ?b) ?ctx setup')"
    by (rule both[THEN conjunct2])
  have each: "compute_each (map snd (filter (\<lambda>hl. fst hl \<notin> set (disabled_ids ?ctx)) ?cs)) ?ctx ?s
      = compute_each [cursor_line_setter 5 :: (unit, string) Highlighter] ?ctx ?s"
    by simp
  have v1: "compute_each [cursor_line_setter 5 :: (unit, string) Highlighter] ?ctx ?s
      = Inr (?s\<lparr>cursor_pos := \<lparr>line = 5, column = 4\<rparr>\<rparr>)"
    by (simp add: cursor_line_setter_def Move_def flags_test_def)
  have r1: "compute_display_setup (Group Move ?cs) ?ctx ?s =
            compute_each [cursor_line_setter 5 :: (unit, string) Highlighter] ?ctx ?s"
    using seq each by simp
  have r2: "compute_display_setup (Group Move (?cs @ [?b])) ?ctx ?s
      = Inr (?s\<lparr>cursor_pos := \<lparr>line = 7, column = 4\<rparr>\<rparr>)"
    unfolding snoc r1 v1 by (simp add: cursor_line_setter_def Move_def flags_test_def)
  have gm: "flags_test (Move AND Move)"
    by (simp add: Move_def flags_test_def)
  note scen = mp[OF move_pass_last_writer_wins[of ?ctx Move ?cs ?s ?b "()", THEN conjunct2] gm]
  show ?thesis
    using g r1 r2 gm scen by simp
qed

text \<open>
  C8. \<open>register\<close> fails with "already registered" when the type name is a key of the
  registry; otherwise it succeeds, the new registry maps the name to the factory and
  the description, and every other entry is as before.
\<close>

theorem register_rejects_existing_name:
  "(type_name \<in> dom registry \<longrightarrow>
      register registry type_name fac description = Inl (already_registered type_name))
   \<and> (type_name \<notin> dom registry \<longrightarrow>
      (\<exists>registry'. register registry type_name fac description = Inr registry'
         \<and> registry' type_name = Some \<lparr>factory = fac, docstring = description\<rparr>
         \<and> (\<forall>k. k \<noteq> type_name \<longrightarrow> registry' k = registry k)))"
  by (simp add: register_def)

lemma fill_unique_ids_set:
  "set (fill_unique_ids (h :: ('c, 'b) Highlighter) ids) = set ids \<union> {i. occurs_in i h}"
  "set (HighlighterGroup_fill_children (cs :: ('c, 'b) HighlighterAndId list) ids) =
     set ids \<union> {i. occurs_in_children i cs}"
  by (induction h ids and cs ids rule: fill_unique_ids_HighlighterGroup_fill_children.induct)
     (auto simp: Highlighter_fill_unique_ids_def)

text \<open>
  C3. \<open>add_child\<close> on a group fails with "duplicate identifier" when the identifier
  occurs anywhere in the tree the group is attached to, or among the children of the
  group; otherwise it succeeds and the new child is the last of the children.
\<close>

theorem add_child_rejects_duplicate:
  "add_child root (Group m cs) (ident, node) =
     (if occurs_in ident root \<or> ident \<in> fst ` set cs then Inl (duplicate_identifier ident)
      else Inr (Group m (cs @ [(ident, node)])))"
  by (simp add: HighlighterGroup_add_child_def fill_unique_ids_set)

theorem add_child_rejects_duplicate_witness:
  "add_child (Group Colorize [(''x'', Group Colorize [(''deep'', marker CHR ''d'')]), (''y'', Group Colorize [])])
     (Group Colorize []) (''deep'', marker CHR ''e'') = Inl (duplicate_identifier ''deep'')
   \<and> add_child (Group Colorize [(''x'', Group Colorize [(''deep'', marker CHR ''d'')]), (''y'', Group Colorize [])])
     (Group Colorize [(''x'', Group Colorize [(''deep'', marker CHR ''d'')]), (''y'', Group Colorize [])])
     (''z'', marker CHR ''e'')
     = Inr (Group Colorize [(''x'', Group Colorize [(''deep'', marker CHR ''d'')]), (''y'', Group Colorize []),
                   (''z'', marker CHR ''e'')])"
  using add_child_rejects_duplicate[of "Group Colorize [(''x'', Group Colorize [(''deep'', marker CHR ''d'')]), (''y'', Group Colorize [])]"
          Colorize "[]" "''deep''" "marker CHR ''e''"]
        add_child_rejects_duplicate[of "Group Colorize [(''x'', Group Colorize [(''deep'', marker CHR ''d'')]), (''y'', Group Colorize [])]"
          Colorize "[(''x'', Group Colorize [(''deep'', marker CHR ''d'')]), (''y'', Group Colorize [])]"
          "''z''" "marker CHR ''e''"]
  by (simp add: marker_def)

theorem register_rejects_existing_name_witness:
  "''number-lines'' \<in> dom [''number-lines'' \<mapsto> \<lparr>factory = (\<lambda>params. (''n'', marker CHR ''n'')), docstring = ''lines''\<rparr>]
   \<and> register [''number-lines'' \<mapsto> \<lparr>factory = (\<lambda>params. (''n'', marker CHR ''n'')), docstring = ''lines''\<rparr>]
        ''number-lines'' (\<lambda>params. (''m'', marker CHR ''m'')) ''other''
      = Inl (already_registered ''number-lines'')
   \<and> ''regex'' \<notin> dom [''number-lines'' \<mapsto> \<lparr>factory = (\<lambda>params. (''n'', marker CHR ''n'')), docstring = ''lines''\<rparr>]
   \<and> (\<exists>registry'.
        register [''number-lines'' \<mapsto> \<lparr>factory = (\<lambda>params. (''n'', marker CHR ''n'')), docstring = ''lines''\<rparr>]
          ''regex'' (\<lambda>params. (''m'', marker CHR ''m'')) ''other'' = Inr registry'
        \<and> registry' ''regex'' = Some \<lparr>factory = (\<lambda>params. (''m'', marker CHR ''m'')), docstring = ''other''\<rparr>
        \<and> registry' ''number-lines'' = Some \<lparr>factory = (\<lambda>params. (''n'', marker CHR ''n'')), docstring = ''lines''\<rparr>)"
  using register_rejects_existing_name[of "''number-lines''"
          "[''number-lines'' \<mapsto> \<lparr>factory = (\<lambda>params. (''n'', marker CHR ''n'')), docstring = ''lines''\<rparr>]"
          "\<lambda>params. (''m'', marker CHR ''m'')" "''other''"]
        register_rejects_existing_name[of "''regex''"
          "[''number-lines'' \<mapsto> \<lparr>factory = (\<lambda>params. (''n'', marker CHR ''n'')), docstring = ''lines''\<rparr>]"
          "\<lambda>params. (''m'', marker CHR ''m'')" "''other''"]
  by auto

lemma split_fields_Cons_cases:
  assumes "split_fields s path = seg # segs"
  shows "seg = takeWhile (\<lambda>c. c \<noteq> s) path \<and>
         (case dropWhile (\<lambda>c. c \<noteq> s) path of
            [] \<Rightarrow> segs = []
          | x # rest \<Rightarrow> segs = split_fields s rest)"
proof -
  have u: "split_fields s path = takeWhile (\<lambda>c. c \<noteq> s) path #
     (case dropWhile (\<lambda>c. c \<noteq> s) path of [] \<Rightarrow> [] | x # rest \<Rightarrow> split_fields s rest)"
    by (rule fields_unfold)
  show ?thesis
  proof (cases "dropWhile (\<lambda>c. c \<noteq> s) path")
    case Nil
    from u assms show ?thesis unfolding Nil by simp
  next
    case (Cons x rest)
    from u assms show ?thesis unfolding Cons by simp
  qed
qed

lemma get_child_resolves:
  "get_child h path = Inr d \<Longrightarrow> resolves h (split_fields CHR ''/'' path) d"
proof (induction h path arbitrary: d rule: get_child.induct)
  case (1 p dh dc path)
  then show ?case by (simp add: get_child.simps Highlighter_get_child_def)
next
  case (2 m cs path)
  let ?seg = "takeWhile (\<lambda>c. c \<noteq> CHR ''/'') path"
  from "2.prems" obtain child where child: "map_of cs ?seg = Some child"
    by (auto simp: get_child.simps split: option.splits)
  show ?case
  proof (cases "dropWhile (\<lambda>c. c \<noteq> CHR ''/'') path")
    case Nil
    with "2.prems" child have "d = child" by (simp add: get_child.simps)
    moreover have "split_fields CHR ''/'' path = [?seg]"
      using fields_unfold[of "CHR ''/''" path] Nil by simp
    ultimately show ?thesis using child by (simp add: resolves_last)
  next
    case (Cons slash path')
    with "2.prems" child have hc: "has_children child" and g: "get_child child path' = Inr d"
      by (auto simp: get_child.simps split: if_splits)
    have r: "resolves child (split_fields CHR ''/'' path') d"
      using "2.IH"[OF child Cons hc g] .
    obtain seg' segs where sf: "split_fields CHR ''/'' path' = seg' # segs"
      using fields_not_Nil[of "CHR ''/''" path'] by (cases "split_fields CHR ''/'' path'") auto
    have "split_fields CHR ''/'' path = ?seg # seg' # segs"
      using fields_unfold[of "CHR ''/''" path] Cons sf by simp
    then show ?thesis
      using resolves_step[of "Group m cs" ?seg child seg' segs d] child hc r sf by simp
  qed
qed

lemma resolves_get_child:
  "resolves h segs d \<Longrightarrow> segs = split_fields CHR ''/'' path \<Longrightarrow> get_child h path = Inr d"
proof (induction arbitrary: path rule: resolves.induct)
  case (resolves_last h seg c)
  then obtain m cs where h: "h = Group m cs" by (cases h) auto
  from resolves_last(2) have seg: "seg = takeWhile (\<lambda>c. c \<noteq> CHR ''/'') path"
    and c: "case dropWhile (\<lambda>c. c \<noteq> CHR ''/'') path of [] \<Rightarrow> True
         | x # rest \<Rightarrow> [] = split_fields CHR ''/'' rest"
    using split_fields_Cons_cases[of "CHR ''/''" path seg "[]"]
    by (auto split: list.splits simp del: dropWhile_eq_Nil_conv)
  have dw: "dropWhile (\<lambda>c. c \<noteq> CHR ''/'') path = []"
  proof (cases "dropWhile (\<lambda>c. c \<noteq> CHR ''/'') path")
    case Nil
    then show ?thesis .
  next
    case (Cons x rest)
    with c have "[] = split_fields CHR ''/'' rest" by simp
    with fields_not_Nil[of "CHR ''/''" rest] show ?thesis by simp
  qed
  show ?case
    unfolding h get_child.simps dw using resolves_last(1) h seg by simp
next
  case (resolves_step h seg c seg' segs d)
  then obtain m cs where h: "h = Group m cs" by (cases h) auto
  from resolves_step(5) have seg: "seg = takeWhile (\<lambda>c. c \<noteq> CHR ''/'') path"
    and "case dropWhile (\<lambda>c. c \<noteq> CHR ''/'') path of [] \<Rightarrow> seg' # segs = []
         | x # rest \<Rightarrow> seg' # segs = split_fields CHR ''/'' rest"
    using split_fields_Cons_cases[of "CHR ''/''" path seg "seg' # segs"] by auto
  then obtain x rest where dw: "dropWhile (\<lambda>c. c \<noteq> CHR ''/'') path = x # rest"
    and rest: "seg' # segs = split_fields CHR ''/'' rest"
    by (auto split: list.splits simp del: dropWhile_eq_Nil_conv)
  have "get_child c rest = Inr d" using resolves_step.IH[OF rest] .
  then show ?case
    unfolding h get_child.simps dw using resolves_step(1,2) h seg by simp
qed

lemma get_child_fails_at:
  "has_children h \<Longrightarrow> get_child h path = Inl e \<Longrightarrow>
   \<exists>pre seg post n. split_fields CHR ''/'' path = pre @ seg # post \<and> reaches h pre n \<and>
      has_children n \<and> segment_fails n seg post \<and> e = not_found seg"
proof (induction h path arbitrary: e rule: get_child.induct)
  case (1 p dh dc path)
  then show ?case by (simp add: Highlighter_has_children_def)
next
  case (2 m cs path)
  let ?seg = "takeWhile (\<lambda>c. c \<noteq> CHR ''/'') path"
  obtain post where sf: "split_fields CHR ''/'' path = ?seg # post"
    and post: "post = (case dropWhile (\<lambda>c. c \<noteq> CHR ''/'') path of [] \<Rightarrow> []
                        | x # rest \<Rightarrow> split_fields CHR ''/'' rest)"
    using fields_unfold[of "CHR ''/''" path] by simp
  show ?case
  proof (cases "map_of cs ?seg")
    case None
    with "2.prems" have "e = not_found ?seg" by (simp add: get_child.simps)
    moreover have "segment_fails (Group m cs) ?seg post" using None by (simp add: segment_fails_def)
    moreover have "reaches (Group m cs) [] (Group m cs)" by (simp add: reaches_def)
    ultimately show ?thesis using sf by (metis append_Nil has_children.simps(2))
  next
    case (Some child)
    show ?thesis
    proof (cases "dropWhile (\<lambda>c. c \<noteq> CHR ''/'') path")
      case Nil
      with "2.prems" Some show ?thesis by (simp add: get_child.simps)
    next
      case (Cons slash path')
      then have post': "post = split_fields CHR ''/'' path'" using post by simp
      show ?thesis
      proof (cases "has_children child")
        case False
        with "2.prems" Some Cons have "e = not_found ?seg" by (simp add: get_child.simps)
        moreover have "segment_fails (Group m cs) ?seg post"
          using Some False post' fields_not_Nil[of "CHR ''/''" path'] by (simp add: segment_fails_def)
        moreover have "reaches (Group m cs) [] (Group m cs)" by (simp add: reaches_def)
        ultimately show ?thesis using sf by (metis append_Nil has_children.simps(2))
      next
        case True
        with "2.prems" Some Cons have g: "get_child child path' = Inl e" by (simp add: get_child.simps)
        from "2.IH"[OF Some Cons True True g]
        obtain pre' seg' post' n where d: "split_fields CHR ''/'' path' = pre' @ seg' # post'"
          and r: "reaches child pre' n" and hn: "has_children n"
          and f: "segment_fails n seg' post'" and e: "e = not_found seg'"
          by blast
        have "reaches (Group m cs) (?seg # pre') n"
        proof (cases pre')
          case Nil
          with r have "n = child" by (simp add: reaches_def)
          with Some Nil show ?thesis by (simp add: reaches_def resolves_last)
        next
          case (Cons s' ss')
          with r have "resolves child (s' # ss') n" by (simp add: reaches_def)
          with Some True Cons show ?thesis by (simp add: reaches_def resolves_step)
        qed
        moreover have "split_fields CHR ''/'' path = (?seg # pre') @ seg' # post'"
          using sf post' d by simp
        ultimately show ?thesis using hn f e by blast
      qed
    qed
  qed
qed

text \<open>
  C5. \<open>get_child\<close> on a group succeeds with a node exactly when the segments of the path
  lead to that node: each segment names a child of the node reached so far and every
  node passed on the way is a container. When they lead to no node, it fails with
  "not found" on the first failing segment: the segments before it lead to a container,
  in which this segment names no child, or names a child that is not a container
  although segments follow.
\<close>

theorem get_child_follows_path:
  "(get_child (Group m cs) path = Inr d \<longleftrightarrow> resolves (Group m cs) (split_fields CHR ''/'' path) d)
   \<and> ((\<forall>d'. \<not> resolves (Group m cs) (split_fields CHR ''/'' path) d') \<longrightarrow>
        (\<exists>pre seg post n.
           split_fields CHR ''/'' path = pre @ seg # post \<and> reaches (Group m cs) pre n \<and>
           has_children n \<and> segment_fails n seg post \<and>
           get_child (Group m cs) path = Inl (not_found seg)))"
proof (intro conjI impI)
  show "get_child (Group m cs) path = Inr d \<longleftrightarrow> resolves (Group m cs) (split_fields CHR ''/'' path) d"
    using get_child_resolves resolves_get_child by blast
next
  assume none: "\<forall>d'. \<not> resolves (Group m cs) (split_fields CHR ''/'' path) d'"
  then obtain e where e: "get_child (Group m cs) path = Inl e"
    using get_child_resolves[of "Group m cs" path] by (cases "get_child (Group m cs) path") auto
  from get_child_fails_at[OF _ e] show "\<exists>pre seg post n.
           split_fields CHR ''/'' path = pre @ seg # post \<and> reaches (Group m cs) pre n \<and>
           has_children n \<and> segment_fails n seg post \<and>
           get_child (Group m cs) path = Inl (not_found seg)"
    using e by auto
qed


theorem get_child_follows_path_witness:
  "get_child example_tree ''a/b'' = Inr (marker CHR ''x'')
   \<and> resolves example_tree [''a'', ''b''] (marker CHR ''x'')
   \<and> (\<forall>d'. \<not> resolves example_tree [''a'', ''c''] d')
   \<and> get_child example_tree ''a/c'' = Inl (not_found ''c'')
   \<and> (\<forall>d'. \<not> resolves example_tree [''leaf'', ''b''] d')
   \<and> get_child example_tree ''leaf/b'' = Inl (not_found ''leaf'')"
proof -
  let ?cs = "[(''a'', Group Colorize [(''b'', marker CHR ''x'')]), (''leaf'', marker CHR ''y'')]
               :: (unit, string) HighlighterAndId list"
  have g1: "get_child (Group Colorize ?cs) ''a/b'' = Inr (marker CHR ''x'')"
    by (simp add: get_child.simps)
  have g2: "get_child (Group Colorize ?cs) ''a/c'' = Inl (not_found ''c'')"
    by (simp add: get_child.simps)
  have g3: "get_child (Group Colorize ?cs) ''leaf/b'' = Inl (not_found ''leaf'')"
    by (simp add: get_child.simps marker_def Highlighter_has_children_def)
  have f1: "split_fields CHR ''/'' ''a/b'' = [''a'', ''b'']"
    and f2: "split_fields CHR ''/'' ''a/c'' = [''a'', ''c'']"
    and f3: "split_fields CHR ''/'' ''leaf/b'' = [''leaf'', ''b'']"
    by simp_all
  have r1: "resolves (Group Colorize ?cs) [''a'', ''b''] (marker CHR ''x'')"
    using get_child_follows_path[of Colorize ?cs "''a/b''" "marker CHR ''x''"] g1 f1 by simp
  have n2: "\<forall>d'. \<not> resolves (Group Colorize ?cs) [''a'', ''c''] d'"
  proof
    fix d'
    show "\<not> resolves (Group Colorize ?cs) [''a'', ''c''] d'"
      using get_child_follows_path[of Colorize ?cs "''a/c''" d'] g2 f2 by simp
  qed
  have n3: "\<forall>d'. \<not> resolves (Group Colorize ?cs) [''leaf'', ''b''] d'"
  proof
    fix d'
    show "\<not> resolves (Group Colorize ?cs) [''leaf'', ''b''] d'"
      using get_child_follows_path[of Colorize ?cs "''leaf/b''" d'] g3 f3 by simp
  qed
  show ?thesis using g1 g2 g3 r1 n2 n3 by (simp add: example_tree_def)
qed

end
